theory Spec2Isabelle
  imports Main "HOL-Library.Sublist"
begin

section \<open>Errors\<close>

text \<open>
  A Go \<open>error\<close> value is either a plain error carrying its message, or the value built by
  \<open>fmt.Errorf\<close> with a \<open>%w\<close> verb: it carries the formatted message and the error it
  wraps. \<open>Error\<close> is the method \<open>Error()\<close>, \<open>Unwrap\<close> the method \<open>Unwrap()\<close>.
  A nil error is \<open>None\<close> of \<open>error option\<close>.
\<close>

datatype error = Err string | Wrapf string error

fun Error :: "error \<Rightarrow> string" where
  "Error (Err m) = m"
| "Error (Wrapf m e) = m"

fun Unwrap :: "error \<Rightarrow> error option" where
  "Unwrap (Err m) = None"
| "Unwrap (Wrapf m e) = Some e"

abbreviation quote :: char where
  "quote \<equiv> CHR 0x27"

text \<open>\<open>fmt.Errorf("error at '%s': %w", stage, err)\<close> of \<open>Exec\<close>.\<close>

definition Errorf_at :: "string \<Rightarrow> error \<Rightarrow> error" where
  "Errorf_at stage err =
     Wrapf (''error at '' @ [quote] @ stage @ [quote] @ '': '' @ Error err) err"

section \<open>The command chain (package cli)\<close>

text \<open>
  The operations of a chain act on everything outside the chain: the host, the guest, the
  terminal. That world is the type variable \<open>'w\<close>; a \<open>func() error\<close> takes the world and
  returns its error (or nil) with the world it leaves; an operation is taken to return,
  and not to reach the chain that runs it. A \<open>*log.Entry\<close> is what its print method does
  to the world with the message it is given.
\<close>

type_synonym 'w op = "'w \<Rightarrow> error option \<times> 'w"

type_synonym 'w logger = "string \<Rightarrow> 'w \<Rightarrow> 'w"

text \<open>
  \<open>Println\<close> of logrus formats its operands as \<open>fmt.Sprintln\<close> does, with a space between
  any two of them, and drops the final newline.
\<close>

fun sprintlnn :: "string list \<Rightarrow> string" where
  "sprintlnn [] = []"
| "sprintlnn [x] = x"
| "sprintlnn (x # y # ys) = x @ '' '' @ sprintlnn (y # ys)"

definition Println :: "'w logger \<Rightarrow> string list \<Rightarrow> 'w \<Rightarrow> 'w" where
  "Println lg args = lg (sprintlnn args)"

text \<open>\<open>type cFunc struct { f func() error; s string }\<close>; a nil \<open>f\<close> is \<open>None\<close>.\<close>

record 'w cFunc =
  cFunc_f :: "'w op option"
  cFunc_s :: string

record 'w ActiveCommandChain =
  funcs :: "'w cFunc list"
  lastStage :: string
  log :: "'w logger"

text \<open>
  \<open>namedCommandChain\<close>: the name and the lazily created logger. \<open>log.WithField("context",
  name)\<close> of logrus is the parameter \<open>withContext\<close>: the logger bound to a context name.
  \<open>Logger\<close> has a value receiver, so the entry it creates is not stored.
\<close>

record 'w namedCommandChain =
  name :: string
  named_log :: "'w logger option"

definition New :: "string \<Rightarrow> 'w namedCommandChain" where
  "New nm = \<lparr>name = nm, named_log = None\<rparr>"

definition Logger :: "(string \<Rightarrow> 'w logger) \<Rightarrow> 'w namedCommandChain \<Rightarrow> 'w logger" where
  "Logger withContext n = (case named_log n of None \<Rightarrow> withContext (name n) | Some l \<Rightarrow> l)"

definition Init :: "(string \<Rightarrow> 'w logger) \<Rightarrow> 'w namedCommandChain \<Rightarrow> 'w ActiveCommandChain" where
  "Init withContext n = \<lparr>funcs = [], lastStage = [], log = Logger withContext n\<rparr>"

text \<open>
  \<open>Add\<close>, \<open>Stage\<close> and \<open>Stagef\<close> have pointer receivers: they return the chain they leave.
  The argument of \<open>Add\<close> may be a nil function. \<open>fmt.Sprintf\<close> is the parameter \<open>sprintf\<close>.
\<close>

definition Add :: "'w op option \<Rightarrow> 'w ActiveCommandChain \<Rightarrow> 'w ActiveCommandChain" where
  "Add fn a = a\<lparr>funcs := funcs a @ [\<lparr>cFunc_f = fn, cFunc_s = []\<rparr>]\<rparr>"

definition Stage :: "string \<Rightarrow> 'w ActiveCommandChain \<Rightarrow> 'w ActiveCommandChain" where
  "Stage st a = a\<lparr>funcs := funcs a @ [\<lparr>cFunc_f = None, cFunc_s = st\<rparr>]\<rparr>"

definition Stagef ::
  "(string \<Rightarrow> 'x list \<Rightarrow> string) \<Rightarrow> string \<Rightarrow> 'x list \<Rightarrow> 'w ActiveCommandChain \<Rightarrow> 'w ActiveCommandChain"
where
  "Stagef sprintf format args a = Stage (sprintf format args) a"

text \<open>
  \<open>Exec\<close> has a value receiver: the loop works on a copy of the chain, so \<open>lastStage\<close> is
  a local of the loop and the caller's chain is not changed. The loop over \<open>a.funcs\<close>:
\<close>

fun exec_loop :: "'w logger \<Rightarrow> 'w cFunc list \<Rightarrow> string \<Rightarrow> 'w \<Rightarrow> error option \<times> 'w" where
  "exec_loop lg [] cur w = (None, w)"
| "exec_loop lg (c # cs) cur w =
     (case cFunc_f c of
        None \<Rightarrow>
          if cFunc_s c \<noteq> [] then exec_loop lg cs (cFunc_s c) (Println lg [cFunc_s c, ''...''] w)
          else exec_loop lg cs cur w
      | Some g \<Rightarrow>
          (case g w of
             (None, w') \<Rightarrow> exec_loop lg cs cur w'
           | (Some err, w') \<Rightarrow>
               if cur = [] then (Some err, w') else (Some (Errorf_at cur err), w')))"

definition Exec :: "'w ActiveCommandChain \<Rightarrow> 'w \<Rightarrow> error option \<times> 'w" where
  "Exec a w = exec_loop (log a) (funcs a) (lastStage a) w"

text \<open>
  The loop of the function that \<open>Retry\<close> adds:
  \<open>for err = f(i + 1); i < count && err != nil; i, err = i+1, f(i+1) { ... }\<close>.
  The post statement is a tuple assignment: both right-hand sides are evaluated before
  \<open>i\<close> is assigned, so \<open>f\<close> receives the old \<open>i\<close> plus one. \<open>time.Sleep\<close> is the parameter
  \<open>sleep\<close>. The closure reads \<open>a.log\<close>, which nothing changes after \<open>Init\<close>.
\<close>

function retry_loop ::
  "'w logger \<Rightarrow> (int \<Rightarrow> 'w \<Rightarrow> 'w) \<Rightarrow> string \<Rightarrow> int \<Rightarrow> int \<Rightarrow> (int \<Rightarrow> 'w op) \<Rightarrow>
   int \<Rightarrow> error option \<Rightarrow> 'w \<Rightarrow> error option \<times> 'w"
where
  "retry_loop lg sleep stage interval count fn i err w =
     (if i < count \<and> err \<noteq> None then
        let w1 = (if stage \<noteq> [] then Println lg [stage, ''...''] w else w);
            w2 = sleep interval w1;
            (err', w3) = fn (i + 1) w2
        in retry_loop lg sleep stage interval count fn (i + 1) err' w3
      else (err, w))"
  by pat_completeness auto
termination
  by (relation "measure (\<lambda>(lg, sleep, stage, interval, count, fn, i, err, w). nat (count - i))") auto

declare retry_loop.simps [simp del]

definition retry_func ::
  "'w logger \<Rightarrow> (int \<Rightarrow> 'w \<Rightarrow> 'w) \<Rightarrow> string \<Rightarrow> int \<Rightarrow> int \<Rightarrow> (int \<Rightarrow> 'w op) \<Rightarrow> 'w op"
where
  "retry_func lg sleep stage interval count fn w =
     (let i = 0; (err, w0) = fn (i + 1) w
      in retry_loop lg sleep stage interval count fn i err w0)"

definition Retry ::
  "(int \<Rightarrow> 'w \<Rightarrow> 'w) \<Rightarrow> string \<Rightarrow> int \<Rightarrow> int \<Rightarrow> (int \<Rightarrow> 'w op) \<Rightarrow>
   'w ActiveCommandChain \<Rightarrow> 'w ActiveCommandChain"
where
  "Retry sleep stage interval count fn a =
     Add (Some (retry_func (log a) sleep stage interval count fn)) a"

section \<open>Strings (package strings)\<close>

text \<open>
  A Go string is a sequence of bytes, here a \<open>string\<close>. \<open>HasPrefix\<close> and \<open>TrimPrefix\<close> as
  the library has them.
\<close>

definition HasPrefix :: "string \<Rightarrow> string \<Rightarrow> bool" where
  "HasPrefix str pre \<longleftrightarrow> length pre \<le> length str \<and> take (length pre) str = pre"

definition TrimPrefix :: "string \<Rightarrow> string \<Rightarrow> string" where
  "TrimPrefix str pre = (if HasPrefix str pre then drop (length pre) str else str)"

text \<open>
  \<open>strings.Fields\<close> splits around runs of white space as \<open>unicode.IsSpace\<close> defines it and
  returns no empty field. Over bytes, the white space runes are the six ASCII ones and
  the UTF-8 encodings of U+0085, U+00A0, U+1680, U+2000 to U+200A, U+2028, U+2029,
  U+202F, U+205F and U+3000. \<open>space_width\<close> is the number of bytes of the white space
  rune that starts the bytes, 0 when none does.
\<close>

definition asciiSpace :: "char list" where
  "asciiSpace = [CHR 0x09, CHR 0x0A, CHR 0x0B, CHR 0x0C, CHR 0x0D, CHR 0x20]"

definition unicodeSpace :: "string list" where
  "unicodeSpace =
     [[CHR 0xC2, CHR 0x85], [CHR 0xC2, CHR 0xA0], [CHR 0xE1, CHR 0x9A, CHR 0x80],
      [CHR 0xE2, CHR 0x80, CHR 0x80], [CHR 0xE2, CHR 0x80, CHR 0x81],
      [CHR 0xE2, CHR 0x80, CHR 0x82], [CHR 0xE2, CHR 0x80, CHR 0x83],
      [CHR 0xE2, CHR 0x80, CHR 0x84], [CHR 0xE2, CHR 0x80, CHR 0x85],
      [CHR 0xE2, CHR 0x80, CHR 0x86], [CHR 0xE2, CHR 0x80, CHR 0x87],
      [CHR 0xE2, CHR 0x80, CHR 0x88], [CHR 0xE2, CHR 0x80, CHR 0x89],
      [CHR 0xE2, CHR 0x80, CHR 0x8A], [CHR 0xE2, CHR 0x80, CHR 0xA8],
      [CHR 0xE2, CHR 0x80, CHR 0xA9], [CHR 0xE2, CHR 0x80, CHR 0xAF],
      [CHR 0xE2, CHR 0x81, CHR 0x9F], [CHR 0xE3, CHR 0x80, CHR 0x80]]"

definition space_width :: "string \<Rightarrow> nat" where
  "space_width str =
     (case str of
        [] \<Rightarrow> 0
      | c # rest \<Rightarrow>
          if c \<in> set asciiSpace then 1
          else (case find (HasPrefix str) unicodeSpace of None \<Rightarrow> 0 | Some sp \<Rightarrow> length sp))"

text \<open>\<open>fields_from skip cur str\<close>: \<open>skip\<close> bytes of the current white space rune are still
  to pass, \<open>cur\<close> is the field read so far.\<close>

fun fields_from :: "nat \<Rightarrow> string \<Rightarrow> string \<Rightarrow> string list" where
  "fields_from skip cur [] = (if cur = [] then [] else [cur])"
| "fields_from skip cur (c # cs) =
     (if 0 < skip then fields_from (skip - 1) cur cs
      else if 0 < space_width (c # cs) then
        (if cur = [] then [] else [cur]) @ fields_from (space_width (c # cs) - 1) [] cs
      else fields_from 0 (cur @ [c]) cs)"

definition Fields :: "string \<Rightarrow> string list" where
  "Fields str = fields_from 0 [] str"

text \<open>
  \<open>strings.Index\<close> for a separator of one byte, and \<open>strings.SplitN\<close> for such a
  separator and \<open>n = 2\<close>: the string itself when the separator does not occur, else the
  part before its first occurrence and the part after it.
\<close>

fun IndexByte :: "string \<Rightarrow> char \<Rightarrow> nat option" where
  "IndexByte [] sep = None"
| "IndexByte (c # cs) sep = (if c = sep then Some 0 else map_option Suc (IndexByte cs sep))"

definition SplitN2 :: "string \<Rightarrow> char \<Rightarrow> string list" where
  "SplitN2 str sep =
     (case IndexByte str sep of None \<Rightarrow> [str] | Some m \<Rightarrow> [take m str, drop (m + 1) str])"

section \<open>The gvproxy socket and the search domains (package gvproxy)\<close>

text \<open>\<open>type Socket string\<close> with its two views.\<close>

datatype Socket = Socket string

fun File :: "Socket \<Rightarrow> string" where
  "File (Socket str) = TrimPrefix str ''unix://''"

fun Unix :: "Socket \<Rightarrow> string" where
  "Unix (Socket str) = ''unix://'' @ File (Socket str)"

text \<open>
  \<open>bufio.Scanner\<close> with the default split function \<open>ScanLines\<close>: the content is cut at
  each newline, an empty rest after the last newline is no line, and a carriage return
  at the end of a line is dropped from its text. A line of \<open>MaxScanTokenSize\<close> bytes or
  more does not fit the buffer: \<open>Scan\<close> returns false there and \<open>Err\<close> is \<open>ErrTooLong\<close>.
\<close>

definition MaxScanTokenSize :: nat where
  "MaxScanTokenSize = 64 * 1024"

fun split_lines :: "string \<Rightarrow> string \<Rightarrow> string list" where
  "split_lines cur [] = (if cur = [] then [] else [cur])"
| "split_lines cur (c # cs) =
     (if c = CHR 0x0A then cur # split_lines [] cs else split_lines (cur @ [c]) cs)"

definition dropCR :: "string \<Rightarrow> string" where
  "dropCR ln = (if ln \<noteq> [] \<and> last ln = CHR 0x0D then butlast ln else ln)"

text \<open>
  The loop of \<open>searchDomains\<close> over the lines still to scan, with the test of \<open>sc.Err()\<close>
  after it. The function returns a slice and no error; nil and the empty slice are both
  \<open>[]\<close>. What it logs on the way is not part of its result.
\<close>

fun scan_loop :: "string list \<Rightarrow> string list" where
  "scan_loop [] = []"
| "scan_loop (ln # rest) =
     (if MaxScanTokenSize \<le> length ln then []
      else if \<not> HasPrefix (dropCR ln) ''search '' then scan_loop rest
      else Fields (TrimPrefix (dropCR ln) ''search ''))"

text \<open>\<open>GOOS\<close> is \<open>runtime.GOOS\<close>; \<open>file\<close> is what \<open>os.ReadFile("/etc/resolv.conf")\<close>
  returns, the error or the content.\<close>

definition searchDomains :: "string \<Rightarrow> error + string \<Rightarrow> string list" where
  "searchDomains GOOS file =
     (if GOOS \<noteq> ''darwin'' \<and> GOOS \<noteq> ''linux'' then []
      else case file of
        Inl err \<Rightarrow> []
      | Inr b \<Rightarrow> scan_loop (split_lines [] b))"

section \<open>Mounts of the start command (package cmd)\<close>

record Mount =
  Location :: string
  Writable :: bool

text \<open>\<open>SplitN\<close> never returns an empty slice here, so \<open>str[0]\<close> is always there.\<close>

definition mountsFromFlag :: "string list \<Rightarrow> Mount list" where
  "mountsFromFlag mounts =
     map (\<lambda>mount.
            let str = SplitN2 mount CHR '':''
            in \<lparr>Location = hd str, Writable = (2 \<le> length str \<and> str ! 1 = ''w'')\<rparr>)
         mounts"

section \<open>The Kubernetes runtime (package kubernetes)\<close>

text \<open>
  The guest is a collaborator: \<open>Run\<close> and \<open>RunQuiet\<close> run a command in the virtual machine
  and return its error. Of \<open>kubernetesRuntime\<close> the model keeps the guest and the
  embedded command chain.
\<close>

record 'w GuestActions =
  Run :: "string list \<Rightarrow> 'w op"
  RunQuiet :: "string list \<Rightarrow> 'w op"

record 'w kubernetesRuntime =
  guest :: "'w GuestActions"
  CommandChain :: "'w namedCommandChain"

definition Running :: "'w kubernetesRuntime \<Rightarrow> 'w \<Rightarrow> bool \<times> 'w" where
  "Running c w =
     (case RunQuiet (guest c) [''sudo'', ''service'', ''k3s'', ''status''] w of
        (err, w') \<Rightarrow> (err = None, w'))"

text \<open>
  \<open>Provision\<close>. What follows the liveness check up to \<open>a.Exec()\<close> reads the configuration
  and adds the installation steps through functions that are not part of the sources at
  hand (\<open>installK3s\<close> and its siblings); it is the parameter \<open>prepare\<close>, which takes the
  fresh chain and the world and returns the chain to execute.
\<close>

definition Provision ::
  "(string \<Rightarrow> 'w logger) \<Rightarrow> ('w ActiveCommandChain \<Rightarrow> 'w \<Rightarrow> 'w ActiveCommandChain \<times> 'w) \<Rightarrow>
   'w kubernetesRuntime \<Rightarrow> 'w op"
where
  "Provision withContext prepare c w =
     (let a = Init withContext (CommandChain c);
          (running, w1) = Running c w
      in if running then (None, w1)
         else (case prepare a w1 of (a', w2) \<Rightarrow> Exec a' w2))"

text \<open>
  \<open>Start\<close>. \<open>time.Second * 2\<close> is the interval in nanoseconds; \<open>provisionKubeconfig\<close> is
  taken as an operation on the world.
\<close>

definition Start ::
  "(string \<Rightarrow> 'w logger) \<Rightarrow> (int \<Rightarrow> 'w \<Rightarrow> 'w) \<Rightarrow> 'w op \<Rightarrow> 'w kubernetesRuntime \<Rightarrow> 'w op"
where
  "Start withContext sleep provisionKubeconfig c w =
     (let lg = Logger withContext (CommandChain c);
          a = Init withContext (CommandChain c);
          (running, w1) = Running c w
      in if running then (None, Println lg [''already running''] w1)
         else
           let a1 = Stage ''starting'' a;
               a2 = Add (Some (Run (guest c) [''sudo'', ''service'', ''k3s'', ''start''])) a1;
               a3 = Retry sleep [] (2 * 1000000000) 10
                      (\<lambda>n. RunQuiet (guest c) [''kubectl'', ''cluster-info'']) a2
           in (case Exec a3 w1 of
                 (Some err, w2) \<Rightarrow> (Some err, w2)
               | (None, w2) \<Rightarrow> provisionKubeconfig w2))"

text \<open>A guest for the examples: the world is the list of the commands run so far, and
  every command succeeds.\<close>

definition recording_guest :: "(string list list) GuestActions" where
  "recording_guest =
     \<lparr>Run = (\<lambda>args w. (None, w @ [args])), RunQuiet = (\<lambda>args w. (None, w @ [args]))\<rparr>"

section \<open>Observing an execution\<close>

text \<open>
  To speak of which operations \<open>Exec\<close> invokes, and when, the world is paired with a
  trace. An observed chain has the same steps; each operation first runs as before and
  then appends \<open>Called k r\<close> to the trace, \<open>k\<close> its position in the step list and \<open>r\<close> what
  it returned, and the logger appends \<open>Printed msg\<close> besides logging as before.
\<close>

datatype obs = Printed string | Called nat "error option"

definition observe_log :: "'w logger \<Rightarrow> (obs list \<times> 'w) logger" where
  "observe_log lg msg = (\<lambda>(tr, w). (tr @ [Printed msg], lg msg w))"

definition observe_op :: "nat \<Rightarrow> 'w op \<Rightarrow> (obs list \<times> 'w) op" where
  "observe_op k g = (\<lambda>(tr, w). case g w of (r, w') \<Rightarrow> (r, (tr @ [Called k r], w')))"

fun observe_steps :: "nat \<Rightarrow> 'w cFunc list \<Rightarrow> (obs list \<times> 'w) cFunc list" where
  "observe_steps k [] = []"
| "observe_steps k (c # cs) =
     \<lparr>cFunc_f = map_option (observe_op k) (cFunc_f c), cFunc_s = cFunc_s c\<rparr>
       # observe_steps (Suc k) cs"

definition observed :: "'w ActiveCommandChain \<Rightarrow> (obs list \<times> 'w) ActiveCommandChain" where
  "observed a =
     \<lparr>funcs = observe_steps 0 (funcs a), lastStage = lastStage a, log = observe_log (log a)\<rparr>"

text \<open>The invocations of a trace, in order: position and returned error.\<close>

fun calls :: "obs list \<Rightarrow> (nat \<times> error option) list" where
  "calls [] = []"
| "calls (Printed msg # tr) = calls tr"
| "calls (Called k r # tr) = (k, r) # calls tr"

text \<open>
  What a run over the steps \<open>cs\<close> leaves in the trace when every operation returns nil,
  the value of the loop's \<open>lastStage\<close> after these steps, and the error the loop returns
  for an operation's error under a given last stage.
\<close>

fun events :: "nat \<Rightarrow> 'w cFunc list \<Rightarrow> obs list" where
  "events k [] = []"
| "events k (c # cs) =
     (case cFunc_f c of
        None \<Rightarrow> if cFunc_s c \<noteq> [] then [Printed (cFunc_s c @ '' ...'')] else []
      | Some g \<Rightarrow> [Called k None]) @ events (Suc k) cs"

fun stage_after :: "'w cFunc list \<Rightarrow> string \<Rightarrow> string" where
  "stage_after [] cur = cur"
| "stage_after (c # cs) cur =
     stage_after cs (if cFunc_f c = None \<and> cFunc_s c \<noteq> [] then cFunc_s c else cur)"

definition tagged :: "string \<Rightarrow> error \<Rightarrow> error" where
  "tagged cur err = (if cur = [] then err else Errorf_at cur err)"

text \<open>
  The shape of an observed run from position \<open>k\<close>: either no operation failed and the
  trace grew by the events of all steps, or the operation at some position \<open>m\<close> returned an
  error \<open>e\<close>, the trace grew by the events of the steps before it and its own call, and the
  result is \<open>e\<close> tagged with the stage in force there.
\<close>

definition run_shape ::
  "nat \<Rightarrow> 'w cFunc list \<Rightarrow> string \<Rightarrow> obs list \<Rightarrow> error option \<Rightarrow> obs list \<Rightarrow> bool"
where
  "run_shape k cs cur tr0 r tr \<longleftrightarrow>
     (r = None \<and> tr = tr0 @ events k cs) \<or>
     (\<exists>m e. m < length cs \<and> cFunc_f (cs ! m) \<noteq> None
        \<and> r = Some (tagged (stage_after (take m cs) cur) e)
        \<and> tr = tr0 @ events k (take m cs) @ [Called (k + m) (Some e)])"

text \<open>Concrete pieces for the examples: a logger that prints nothing, a sleep that
  passes no time, an operation that fails, and a retried operation that fails on every
  attempt and records the attempt number it was given.\<close>

definition silent :: "string \<Rightarrow> 'w logger" where
  "silent ctx msg w = w"

definition no_sleep :: "int \<Rightarrow> 'w \<Rightarrow> 'w" where
  "no_sleep d w = w"

definition boom :: "'w op" where
  "boom w = (Some (Err ''boom''), w)"

definition ok :: "'w op" where
  "ok w = (None, w)"

definition always_fails :: "int \<Rightarrow> (int list) op" where
  "always_fails n attempts = (Some (Err ''not ready''), attempts @ [n])"

text \<open>Two chains built as a caller would: one whose fourth step fails under stage \<open>X\<close>,
  one whose operations all succeed.\<close>

definition example_chain :: "unit ActiveCommandChain" where
  "example_chain =
     Add (Some ok) (Add (Some boom) (Add (Some ok) (Stage ''X'' (Add (Some ok) (Init silent (New ''k''))))))"

definition ok_chain :: "unit ActiveCommandChain" where
  "ok_chain = Add (Some ok) (Stage ''X'' (Add (Some ok) (Init silent (New ''k''))))"

definition raw_chain :: "unit ActiveCommandChain" where
  "raw_chain = Add (Some boom) (Add (Some ok) (Init silent (New ''k'')))"

text \<open>A resolver configuration for the examples.\<close>

definition resolv_conf :: string where
  "resolv_conf = ''nameserver 1.1.1.1'' @ [CHR 0x0A] @ ''search foo.local bar.local'' @ [CHR 0x0A]"

section \<open>The shape of an observed run\<close>

lemma observe_log_apply: "observe_log lg msg (tr, w) = (tr @ [Printed msg], lg msg w)"
  by (simp add: observe_log_def)

lemma observe_op_apply:
  "observe_op k g (tr, w) = (fst (g w), (tr @ [Called k (fst (g w))], snd (g w)))"
  by (simp add: observe_op_def split: prod.splits)

lemma run_shape_step:
  assumes "run_shape (Suc k) cs (stage_after [c] cur) (tr0 @ events k [c]) r tr"
  shows "run_shape k (c # cs) cur tr0 r tr"
proof -
  from assms consider
    (allok) "r = None" "tr = (tr0 @ events k [c]) @ events (Suc k) cs"
  | (failed) m e where "m < length cs" "cFunc_f (cs ! m) \<noteq> None"
      "r = Some (tagged (stage_after (take m cs) (stage_after [c] cur)) e)"
      "tr = (tr0 @ events k [c]) @ events (Suc k) (take m cs) @ [Called (Suc k + m) (Some e)]"
    unfolding run_shape_def by blast
  then show ?thesis
  proof cases
    case allok
    then show ?thesis unfolding run_shape_def by simp
  next
    case failed
    then have "Suc m < length (c # cs) \<and> cFunc_f ((c # cs) ! Suc m) \<noteq> None
        \<and> r = Some (tagged (stage_after (take (Suc m) (c # cs)) cur) e)
        \<and> tr = tr0 @ events k (take (Suc m) (c # cs)) @ [Called (k + Suc m) (Some e)]"
      by simp
    then show ?thesis unfolding run_shape_def by blast
  qed
qed

lemma run_shape_fail:
  assumes "cFunc_f c \<noteq> None"
  shows "run_shape k (c # cs) cur tr0 (Some (tagged cur e)) (tr0 @ [Called k (Some e)])"
proof -
  have "0 < length (c # cs) \<and> cFunc_f ((c # cs) ! 0) \<noteq> None
        \<and> Some (tagged cur e) = Some (tagged (stage_after (take 0 (c # cs)) cur) e)
        \<and> tr0 @ [Called k (Some e)] = tr0 @ events k (take 0 (c # cs)) @ [Called (k + 0) (Some e)]"
    using assms by simp
  then show ?thesis unfolding run_shape_def by blast
qed

lemma exec_observed:
  "exec_loop (observe_log lg) (observe_steps k cs) cur (tr0, w) = (r, (tr, w')) \<Longrightarrow>
   run_shape k cs cur tr0 r tr"
proof (induction cs arbitrary: k cur tr0 w)
  case Nil
  then show ?case by (simp add: run_shape_def)
next
  case (Cons c cs)
  show ?case
  proof (cases "cFunc_f c")
    case None
    show ?thesis
    proof (cases "cFunc_s c = []")
      case True
      with None Cons.prems have "exec_loop (observe_log lg) (observe_steps (Suc k) cs) cur (tr0, w) = (r, (tr, w'))"
        by simp
      from Cons.IH[OF this] show ?thesis using None True
        by (intro run_shape_step) simp
    next
      case False
      with None Cons.prems have "exec_loop (observe_log lg) (observe_steps (Suc k) cs) (cFunc_s c) (tr0 @ [Printed (cFunc_s c @ '' ...'')], lg (cFunc_s c @ '' ...'') w) = (r, (tr, w'))"
        by (simp add: Println_def observe_log_apply)
      from Cons.IH[OF this] show ?thesis using None False
        by (intro run_shape_step) simp
    qed
  next
    case (Some g)
    obtain r1 w1 where g: "g w = (r1, w1)" by (cases "g w")
    show ?thesis
    proof (cases r1)
      case None
      with Some g Cons.prems have "exec_loop (observe_log lg) (observe_steps (Suc k) cs) cur (tr0 @ [Called k None], w1) = (r, (tr, w'))"
        by (simp add: observe_op_apply)
      from Cons.IH[OF this] show ?thesis using Some
        by (intro run_shape_step) simp
    next
      case (Some e)
      with \<open>cFunc_f c = Some g\<close> g Cons.prems have "r = Some (tagged cur e) \<and> tr = tr0 @ [Called k (Some e)]"
        by (auto simp add: observe_op_apply tagged_def split: if_splits)
      then show ?thesis using \<open>cFunc_f c = Some g\<close> run_shape_fail[of c k cs cur tr0 e]
        by simp
    qed
  qed
qed

lemma exec_observed_sim:
  "exec_loop (observe_log lg) (observe_steps k cs) cur (tr0, w) = (r, (tr, w')) \<Longrightarrow>
   exec_loop lg cs cur w = (r, w')"
proof (induction cs arbitrary: k cur tr0 w)
  case Nil
  then show ?case by simp
next
  case (Cons c cs)
  show ?case
  proof (cases "cFunc_f c")
    case None
    with Cons show ?thesis
      by (cases "cFunc_s c = []") (auto simp: Println_def observe_log_apply)
  next
    case (Some g)
    obtain r1 w1 where g: "g w = (r1, w1)" by (cases "g w")
    with Some Cons show ?thesis
      by (cases r1) (auto simp: observe_op_apply split: if_splits)
  qed
qed

lemma calls_append: "calls (xs @ ys) = calls xs @ calls ys"
  by (induction xs rule: calls.induct) auto

lemma events_append: "events k (xs @ ys) = events k xs @ events (k + length xs) ys"
  by (induction xs arbitrary: k) auto

lemma stage_after_append: "stage_after (xs @ ys) cur = stage_after ys (stage_after xs cur)"
  by (induction xs arbitrary: cur) auto

lemma stage_after_ops: "\<forall>c \<in> set ys. cFunc_f c \<noteq> None \<Longrightarrow> stage_after ys cur = cur"
  by (induction ys arbitrary: cur) auto

lemma events_Called: "Called i r \<in> set (events k cs) \<Longrightarrow> k \<le> i \<and> i < k + length cs \<and> r = None"
proof (induction cs arbitrary: k)
  case Nil
  then show ?case by simp
next
  case (Cons c cs)
  from Cons.prems have "Called i r \<in> set (events k [c]) \<or> Called i r \<in> set (events (Suc k) cs)"
    by auto
  then show ?case
  proof
    assume "Called i r \<in> set (events k [c])"
    then show ?thesis by (auto split: option.splits if_splits)
  next
    assume "Called i r \<in> set (events (Suc k) cs)"
    from Cons.IH[OF this] show ?thesis by simp
  qed
qed

lemma calls_events:
  "calls (events 0 xs) = map (\<lambda>i. (i, None)) (filter (\<lambda>i. cFunc_f (xs ! i) \<noteq> None) [0..<length xs])"
proof (induction xs rule: rev_induct)
  case Nil
  then show ?case by simp
next
  case (snoc x xs)
  have same: "filter (\<lambda>i. cFunc_f ((xs @ [x]) ! i) \<noteq> None) [0..<length xs]
        = filter (\<lambda>i. cFunc_f (xs ! i) \<noteq> None) [0..<length xs]"
    by (rule filter_cong) (auto simp: nth_append)
  have last: "calls (events (length xs) [x]) = (if cFunc_f x \<noteq> None then [(length xs, None)] else [])"
    by (auto split: option.splits)
  show ?case
    using snoc.IH same last by (simp add: events_append calls_append)
qed

lemma calls_events_take:
  assumes "m \<le> length cs"
  shows "calls (events 0 (take m cs)) = map (\<lambda>i. (i, None)) (filter (\<lambda>i. cFunc_f (cs ! i) \<noteq> None) [0..<m])"
proof -
  have "filter (\<lambda>i. cFunc_f (take m cs ! i) \<noteq> None) [0..<m] = filter (\<lambda>i. cFunc_f (cs ! i) \<noteq> None) [0..<m]"
    by (rule filter_cong) auto
  then show ?thesis using assms calls_events[of "take m cs"] by simp
qed

lemma stage_after_take:
  assumes "j < k" "k \<le> length cs" "cFunc_f (cs ! j) = None" "cFunc_s (cs ! j) \<noteq> []"
    and "\<forall>i. j < i \<and> i < k \<longrightarrow> cFunc_f (cs ! i) \<noteq> None"
  shows "stage_after (take k cs) cur = cFunc_s (cs ! j)"
proof -
  have split: "take k cs = take j cs @ cs ! j # take (k - Suc j) (drop (Suc j) cs)"
  proof -
    have "take k cs = take (Suc j + (k - Suc j)) cs" using assms(1) by simp
    also have "\<dots> = take (Suc j) cs @ take (k - Suc j) (drop (Suc j) cs)"
      by (rule take_add)
    also have "take (Suc j) cs = take j cs @ [cs ! j]"
      using assms(1,2) by (simp add: take_Suc_conv_app_nth)
    finally show ?thesis by simp
  qed
  have ops: "\<forall>c \<in> set (take (k - Suc j) (drop (Suc j) cs)). cFunc_f c \<noteq> None"
  proof
    fix c assume "c \<in> set (take (k - Suc j) (drop (Suc j) cs))"
    then obtain n where n: "n < length (take (k - Suc j) (drop (Suc j) cs))"
      and c: "c = take (k - Suc j) (drop (Suc j) cs) ! n"
      by (auto simp: in_set_conv_nth)
    from n have "n < k - Suc j" by simp
    with c assms(2) have "c = cs ! (Suc j + n)" by simp
    moreover have "j < Suc j + n \<and> Suc j + n < k" using \<open>n < k - Suc j\<close> by arith
    ultimately show "cFunc_f c \<noteq> None" using assms(5) by blast
  qed
  show ?thesis
    using assms(3,4) by (simp add: split stage_after_append stage_after_ops[OF ops])
qed

lemma stage_after_take_ops:
  assumes "k \<le> length cs" "\<forall>j < k. cFunc_f (cs ! j) \<noteq> None"
  shows "stage_after (take k cs) cur = cur"
proof (rule stage_after_ops)
  show "\<forall>c\<in>set (take k cs). cFunc_f c \<noteq> None"
    using assms by (auto simp: in_set_conv_nth)
qed

lemma stage_after_inert:
  "\<forall>c \<in> set ys. cFunc_f c = None \<longrightarrow> cFunc_s c = [] \<Longrightarrow> stage_after ys cur = cur"
  by (induction ys arbitrary: cur) auto

lemma stage_after_take_inert:
  assumes "k \<le> length cs" "\<forall>j<k. cFunc_f (cs ! j) = None \<longrightarrow> cFunc_s (cs ! j) = []"
  shows "stage_after (take k cs) cur = cur"
proof (rule stage_after_inert)
  show "\<forall>c\<in>set (take k cs). cFunc_f c = None \<longrightarrow> cFunc_s c = []"
    using assms by (auto simp: in_set_conv_nth)
qed

lemma stage_after_take_last:
  assumes "j < k" "k \<le> length cs" "cFunc_f (cs ! j) = None" "cFunc_s (cs ! j) \<noteq> []"
    and "\<forall>i. j < i \<and> i < k \<and> cFunc_f (cs ! i) = None \<longrightarrow> cFunc_s (cs ! i) = []"
  shows "stage_after (take k cs) cur = cFunc_s (cs ! j)"
proof -
  have parts: "take k cs = take j cs @ cs ! j # take (k - Suc j) (drop (Suc j) cs)"
  proof -
    have "take k cs = take (Suc j + (k - Suc j)) cs" using assms(1) by simp
    also have "\<dots> = take (Suc j) cs @ take (k - Suc j) (drop (Suc j) cs)"
      by (rule take_add)
    also have "take (Suc j) cs = take j cs @ [cs ! j]"
      using assms(1,2) by (simp add: take_Suc_conv_app_nth)
    finally show ?thesis by simp
  qed
  have inert: "\<forall>c \<in> set (take (k - Suc j) (drop (Suc j) cs)). cFunc_f c = None \<longrightarrow> cFunc_s c = []"
  proof
    fix c assume "c \<in> set (take (k - Suc j) (drop (Suc j) cs))"
    then obtain n where n: "n < length (take (k - Suc j) (drop (Suc j) cs))"
      and c: "c = take (k - Suc j) (drop (Suc j) cs) ! n"
      by (auto simp: in_set_conv_nth)
    from n have nk: "n < k - Suc j" by simp
    with c assms(2) have "c = cs ! (Suc j + n)" by simp
    moreover have "j < Suc j + n \<and> Suc j + n < k" using nk by arith
    ultimately show "cFunc_f c = None \<longrightarrow> cFunc_s c = []" using assms(5) by blast
  qed
  show ?thesis
    using assms(3,4) by (simp add: parts stage_after_append stage_after_inert[OF inert])
qed

lemma Errorf_at_message:
  "Error (Errorf_at X e) = ''error at '' @ [quote] @ X @ [quote] @ '': '' @ Error e
   \<and> Unwrap (Errorf_at X e) = Some e"
  by (simp add: Errorf_at_def)

lemma exec_loop_skip_empty:
  "exec_loop lg (pre @ \<lparr>cFunc_f = None, cFunc_s = []\<rparr> # post) cur w = exec_loop lg (pre @ post) cur w"
proof (induction pre arbitrary: cur w)
  case Nil
  then show ?case by simp
next
  case (Cons c pre)
  then show ?case by (simp split: option.splits prod.splits)
qed

lemma Init_fresh: "funcs (Init withContext n) = [] \<and> lastStage (Init withContext n) = []"
  by (simp add: Init_def)

lemma tagged_wraps: "tagged cur e = e \<or> Unwrap (tagged cur e) = Some e"
  by (simp add: tagged_def Errorf_at_def)

lemma observed_run:
  assumes "Exec (observed a) ([], w) = (r, (tr, w'))"
  shows "run_shape 0 (funcs a) (lastStage a) [] r tr" and "Exec a w = (r, w')"
  using assms exec_observed[of "log a" 0 "funcs a" "lastStage a" "[]" w r tr w']
    exec_observed_sim[of "log a" 0 "funcs a" "lastStage a" "[]" w r tr w']
  by (simp_all add: Exec_def observed_def)

lemma run_shape_cases:
  assumes "run_shape 0 cs cur [] r tr"
  obtains (allok) "r = None" "tr = events 0 cs"
  | (failed) m e where "m < length cs" "cFunc_f (cs ! m) \<noteq> None"
      "r = Some (tagged (stage_after (take m cs) cur) e)"
      "tr = events 0 (take m cs) @ [Called m (Some e)]"
  using assms unfolding run_shape_def by auto

lemma failed_call_unique:
  assumes "Called k (Some e) \<in> set (events 0 xs @ [Called m (Some e')])"
  shows "k = m \<and> e = e'"
  using assms events_Called[of k "Some e" 0 xs] by auto

lemma sublist_at: "sublist (''at '' @ [quote] @ X @ [quote]) (''error at '' @ [quote] @ X @ [quote] @ '': '' @ m)"
proof -
  have "''error at '' @ [quote] @ X @ [quote] @ '': '' @ m = ''error '' @ (''at '' @ [quote] @ X @ [quote]) @ ('': '' @ m)"
    by simp
  then show ?thesis unfolding sublist_def by blast
qed

lemmas chain_defs = Add_def Stage_def Init_def Logger_def New_def observed_def Exec_def
  observe_op_apply observe_log_apply Println_def ok_def boom_def silent_def

lemma example_run:
  "Exec (observed example_chain) ([], ()) =
     (Some (Errorf_at ''X'' (Err ''boom'')),
      ([Called 0 None, Printed ''X ...'', Called 2 None, Called 3 (Some (Err ''boom''))], ()))"
  by (simp add: example_chain_def chain_defs)

lemma ok_run:
  "Exec (observed ok_chain) ([], ()) = (None, ([Called 0 None, Printed ''X ...'', Called 2 None], ()))"
  by (simp add: ok_chain_def chain_defs)

lemma raw_run:
  "Exec (observed raw_chain) ([], ()) = (Some (Err ''boom''), ([Called 0 None, Called 1 (Some (Err ''boom''))], ()))"
  by (simp add: raw_chain_def chain_defs)

lemma example_funcs:
  "funcs example_chain =
     [\<lparr>cFunc_f = Some ok, cFunc_s = []\<rparr>, \<lparr>cFunc_f = None, cFunc_s = ''X''\<rparr>,
      \<lparr>cFunc_f = Some ok, cFunc_s = []\<rparr>, \<lparr>cFunc_f = Some boom, cFunc_s = []\<rparr>,
      \<lparr>cFunc_f = Some ok, cFunc_s = []\<rparr>]"
  by (simp add: example_chain_def Add_def Stage_def Init_def)

lemma example_between: "1 < i \<and> i < 3 \<longrightarrow> cFunc_f (funcs example_chain ! i) \<noteq> None"
proof
  assume "1 < i \<and> i < 3"
  then have "i = 2" by arith
  then show "cFunc_f (funcs example_chain ! i) \<noteq> None" by (simp add: example_funcs)
qed

lemma raw_funcs:
  "funcs raw_chain = [\<lparr>cFunc_f = Some ok, cFunc_s = []\<rparr>, \<lparr>cFunc_f = Some boom, cFunc_s = []\<rparr>]"
  by (simp add: raw_chain_def Add_def Init_def)

lemma chains_fresh: "lastStage example_chain = []" "lastStage raw_chain = []"
  by (simp_all add: example_chain_def raw_chain_def Add_def Stage_def Init_def)

text \<open>
  A retried operation that fails on every attempt and records the attempt number it is
  given, under a logger and a sleep that leave the record alone: the function that
  \<open>Retry\<close> adds calls it once before the loop and once more in each of the \<open>count\<close>
  rounds, with the numbers \<open>1, 1, 2, ..., count\<close>, and returns an error.
\<close>

lemma retry_loop_failing:
  "\<forall>n x. fst (fn n x) \<noteq> None \<and> fst (snd (fn n x)) = fst x @ [n] \<Longrightarrow>
   \<forall>m x. fst (lg m x) = fst x \<Longrightarrow> \<forall>d x. fst (sleep d x) = fst x \<Longrightarrow>
   i \<le> count \<Longrightarrow> err \<noteq> None \<Longrightarrow>
     fst (retry_loop lg sleep stage interval count fn i err x) \<noteq> None
     \<and> fst (snd (retry_loop lg sleep stage interval count fn i err x)) = fst x @ [i + 1..count]"
proof (induction lg sleep stage interval count fn i err x rule: retry_loop.induct)
  case (1 lg sleep stage interval count fn i err w)
  note fails = "1.prems"(1) and lgp = "1.prems"(2) and sl = "1.prems"(3)
  show ?case
  proof (cases "i < count")
    case False
    with "1.prems" show ?thesis by (simp add: retry_loop.simps)
  next
    case True
    define w1 where "w1 = (if stage \<noteq> [] then Println lg [stage, ''...''] w else w)"
    define w2 where "w2 = sleep interval w1"
    obtain err' w3 where f: "fn (i + 1) w2 = (err', w3)" by (cases "fn (i + 1) w2")
    have "fst w1 = fst w" by (simp add: w1_def Println_def lgp[rule_format])
    then have tr2: "fst w2 = fst w" by (simp add: w2_def sl[rule_format])
    from fails f have e: "err' \<noteq> None" and tr3: "fst w3 = fst w @ [i + 1]"
      using tr2 by (metis fst_conv, metis fst_conv snd_conv)
    have IH: "fst (retry_loop lg sleep stage interval count fn (i + 1) err' w3) \<noteq> None
     \<and> fst (snd (retry_loop lg sleep stage interval count fn (i + 1) err' w3)) = fst w3 @ [i + 1 + 1..count]"
      using "1.IH"[of w1 w2 "(err', w3)" err' w3] True "1.prems" f e
      by (simp add: w1_def w2_def)
    have unfold: "retry_loop lg sleep stage interval count fn i err w
        = retry_loop lg sleep stage interval count fn (i + 1) err' w3"
      using True "1.prems" f by (subst retry_loop.simps) (simp add: w1_def w2_def Let_def)
    have "[i + 1..count] = (i + 1) # [i + 1 + 1..count]"
      using True by (simp add: upto_rec1)
    with IH unfold tr3 show ?thesis by simp
  qed
qed

lemma retry_func_failing:
  assumes "\<forall>n x. fst (fn n x) \<noteq> None \<and> fst (snd (fn n x)) = fst x @ [n]"
      and "\<forall>m x. fst (lg m x) = fst x" and "\<forall>d x. fst (sleep d x) = fst x"
      and "0 \<le> count"
  shows "fst (retry_func lg sleep stage interval count fn x) \<noteq> None
     \<and> fst (snd (retry_func lg sleep stage interval count fn x)) = fst x @ 1 # [1..count]"
proof -
  obtain err w0 where f: "fn 1 x = (err, w0)" by (cases "fn 1 x")
  with assms(1) have "err \<noteq> None" "fst w0 = fst x @ [1]"
    by (metis fst_conv, metis fst_conv snd_conv)
  with retry_loop_failing[OF assms(1-3), of 0 count err stage interval w0] assms(4) f
  show ?thesis by (simp add: retry_func_def)
qed

section \<open>Facts about the string functions and the line scan\<close>

lemma IndexByte_None: "IndexByte str sep = None \<longleftrightarrow> sep \<notin> set str"
  by (induction str) auto

lemma IndexByte_first: "sep \<notin> set pre \<Longrightarrow> IndexByte (pre @ sep # suf) sep = Some (length pre)"
  by (induction pre) auto

lemma SplitN2_none: "sep \<notin> set str \<Longrightarrow> SplitN2 str sep = [str]"
  by (simp add: SplitN2_def IndexByte_None[THEN iffD2])

lemma SplitN2_first: "sep \<notin> set pre \<Longrightarrow> SplitN2 (pre @ sep # suf) sep = [pre, suf]"
  by (simp add: SplitN2_def IndexByte_first)

lemma scan_loop_first:
  assumes "\<forall>b \<in> set before. length b < MaxScanTokenSize \<and> \<not> HasPrefix (dropCR b) ''search ''"
      and "length ln < MaxScanTokenSize" and "HasPrefix (dropCR ln) ''search ''"
  shows "scan_loop (before @ ln # after) = Fields (TrimPrefix (dropCR ln) ''search '')"
  using assms by (induction before) auto

lemma scan_loop_none:
  "\<forall>ln \<in> set lns. \<not> HasPrefix (dropCR ln) ''search '' \<Longrightarrow> scan_loop lns = []"
  by (induction lns) auto

lemma scan_loop_too_long:
  assumes "\<forall>b \<in> set before. \<not> HasPrefix (dropCR b) ''search ''" and "MaxScanTokenSize \<le> length ln"
  shows "scan_loop (before @ ln # after) = []"
  using assms by (induction before) auto

lemma Fields_example: "Fields ''foo.local bar.local'' = [''foo.local'', ''bar.local'']"
  by code_simp

lemma search_line_example:
  "length ''search foo.local bar.local'' < MaxScanTokenSize"
  "HasPrefix (dropCR ''search foo.local bar.local'') ''search ''"
  "TrimPrefix (dropCR ''search foo.local bar.local'') ''search '' = ''foo.local bar.local''"
  by (simp_all add: MaxScanTokenSize_def HasPrefix_def dropCR_def TrimPrefix_def)

lemma split_lines_replicate:
  "c \<noteq> CHR 0x0A \<Longrightarrow> split_lines cur (replicate n c) = (if cur @ replicate n c = [] then [] else [cur @ replicate n c])"
proof (induction n arbitrary: cur)
  case 0
  then show ?case by simp
next
  case (Suc n)
  then show ?case by (simp add: replicate_app_Cons_same)
qed

lemma resolv_conf_lines:
  "split_lines [] resolv_conf = [''nameserver 1.1.1.1''] @ ''search foo.local bar.local'' # []"
  by (simp add: resolv_conf_def)

lemma nameserver_line:
  "length ''nameserver 1.1.1.1'' < MaxScanTokenSize" "\<not> HasPrefix (dropCR ''nameserver 1.1.1.1'') ''search ''"
  by (simp_all add: MaxScanTokenSize_def HasPrefix_def dropCR_def)

section \<open>Frame of the builders\<close>

text \<open>
  C4. \<open>Add\<close>, \<open>Stage\<close> and \<open>Stagef\<close> each append exactly one step at the end of the step
  list and change nothing else of the chain: the steps already there, the logger and the
  last stage are kept. The builders do not take the world, so they invoke no operation;
  only \<open>Exec\<close> does.
\<close>

theorem builders_append_one_step:
  "funcs (Add fn a) = funcs a @ [\<lparr>cFunc_f = fn, cFunc_s = []\<rparr>]
   \<and> funcs (Stage st a) = funcs a @ [\<lparr>cFunc_f = None, cFunc_s = st\<rparr>]
   \<and> funcs (Stagef sprintf format args a) =
       funcs a @ [\<lparr>cFunc_f = None, cFunc_s = sprintf format args\<rparr>]
   \<and> log (Add fn a) = log a \<and> lastStage (Add fn a) = lastStage a
   \<and> log (Stage st a) = log a \<and> lastStage (Stage st a) = lastStage a
   \<and> log (Stagef sprintf format args a) = log a
   \<and> lastStage (Stagef sprintf format args a) = lastStage a"
  by (simp add: Add_def Stage_def Stagef_def)

section \<open>Fail-fast execution\<close>

text \<open>
  C2, as the code has it. Take any chain and run it observed. If the trace shows that
  the operation at position \<open>k\<close> returned an error \<open>e\<close>, then the invocations of the run
  are exactly the operations at the positions below \<open>k\<close>, in insertion order and each
  returning nil, followed by the operation at \<open>k\<close>: no operation after \<open>k\<close> is invoked,
  and \<open>k\<close> is the first to fail. What \<open>Exec\<close> returns then depends on the stage in force.
  When the chain has no last stage yet (as \<open>Init\<close> leaves it) and no stage step with a
  non-empty label stands before \<open>k\<close>, it returns \<open>e\<close> itself, which wraps nothing more
  than \<open>e\<close> does. When the last stage step with a non-empty label before \<open>k\<close> has the
  label \<open>X\<close>, it returns an error that unwraps to \<open>e\<close> and whose message is
  \<open>error at 'X': \<close> followed by the message of \<open>e\<close>. If no invoked operation returned an
  error, every operation was invoked, in insertion order, and \<open>Exec\<close> returns nil. The
  observed run returns what the plain run returns.
\<close>

theorem Exec_fail_fast:
  assumes "Exec (observed a) ([], w) = (r, (tr, w'))"
  shows "Exec a w = (r, w')
     \<and> (\<forall>k e. Called k (Some e) \<in> set tr \<longrightarrow>
          calls tr = map (\<lambda>i. (i, None)) (filter (\<lambda>i. cFunc_f (funcs a ! i) \<noteq> None) [0..<k]) @ [(k, Some e)]
          \<and> (lastStage a = [] \<and> (\<forall>j<k. cFunc_f (funcs a ! j) = None \<longrightarrow> cFunc_s (funcs a ! j) = [])
               \<longrightarrow> r = Some e)
          \<and> (\<forall>j X. j < k \<and> funcs a ! j = \<lparr>cFunc_f = None, cFunc_s = X\<rparr> \<and> X \<noteq> []
                 \<and> (\<forall>i. j < i \<and> i < k \<and> cFunc_f (funcs a ! i) = None \<longrightarrow> cFunc_s (funcs a ! i) = [])
               \<longrightarrow> (\<exists>e'. r = Some e'
                      \<and> Error e' = ''error at '' @ [quote] @ X @ [quote] @ '': '' @ Error e
                      \<and> Unwrap e' = Some e)))
     \<and> ((\<forall>k e. Called k (Some e) \<notin> set tr) \<longrightarrow>
          r = None
          \<and> calls tr = map (\<lambda>i. (i, None)) (filter (\<lambda>i. cFunc_f (funcs a ! i) \<noteq> None) [0..<length (funcs a)]))"
proof -
  note shape = observed_run[OF assms]
  from shape(1) show ?thesis
  proof (cases rule: run_shape_cases)
    case allok
    then have "\<forall>k e. Called k (Some e) \<notin> set tr"
      using events_Called by fastforce
    then show ?thesis
      using allok shape(2) by (simp add: calls_events)
  next
    case (failed m e)
    have uniq: "\<And>k e0. Called k (Some e0) \<in> set tr \<Longrightarrow> k = m \<and> e0 = e"
      using failed(4) failed_call_unique by blast
    have c: "calls tr = map (\<lambda>i. (i, None)) (filter (\<lambda>i. cFunc_f (funcs a ! i) \<noteq> None) [0..<m]) @ [(m, Some e)]"
      using failed(1,4) by (simp add: calls_append calls_events_take)
    have ml: "m \<le> length (funcs a)" using failed(1) by simp
    have raw: "r = Some e"
      if "lastStage a = [] \<and> (\<forall>j<m. cFunc_f (funcs a ! j) = None \<longrightarrow> cFunc_s (funcs a ! j) = [])"
    proof -
      from that have "stage_after (take m (funcs a)) (lastStage a) = []"
        using stage_after_take_inert[OF ml, of "lastStage a"] by simp
      then show ?thesis using failed(3) by (simp add: tagged_def)
    qed
    have wrapped: "\<exists>e'. r = Some e'
          \<and> Error e' = ''error at '' @ [quote] @ X @ [quote] @ '': '' @ Error e
          \<and> Unwrap e' = Some e"
      if "j < m \<and> funcs a ! j = \<lparr>cFunc_f = None, cFunc_s = X\<rparr> \<and> X \<noteq> []
            \<and> (\<forall>i. j < i \<and> i < m \<and> cFunc_f (funcs a ! i) = None \<longrightarrow> cFunc_s (funcs a ! i) = [])" for j X
    proof -
      have "stage_after (take m (funcs a)) (lastStage a) = cFunc_s (funcs a ! j)"
        using that ml by (intro stage_after_take_last) simp_all
      then have "r = Some (Errorf_at X e)"
        using failed(3) that by (simp add: tagged_def)
      then show ?thesis using Errorf_at_message[of X e] by simp
    qed
    have "Called m (Some e) \<in> set tr" using failed(4) by simp
    have fail: "calls tr = map (\<lambda>i. (i, None)) (filter (\<lambda>i. cFunc_f (funcs a ! i) \<noteq> None) [0..<k]) @ [(k, Some e0)]
          \<and> (lastStage a = [] \<and> (\<forall>j<k. cFunc_f (funcs a ! j) = None \<longrightarrow> cFunc_s (funcs a ! j) = [])
               \<longrightarrow> r = Some e0)
          \<and> (\<forall>j X. j < k \<and> funcs a ! j = \<lparr>cFunc_f = None, cFunc_s = X\<rparr> \<and> X \<noteq> []
                 \<and> (\<forall>i. j < i \<and> i < k \<and> cFunc_f (funcs a ! i) = None \<longrightarrow> cFunc_s (funcs a ! i) = [])
               \<longrightarrow> (\<exists>e'. r = Some e'
                      \<and> Error e' = ''error at '' @ [quote] @ X @ [quote] @ '': '' @ Error e0
                      \<and> Unwrap e' = Some e0))"
      if "Called k (Some e0) \<in> set tr" for k e0
    proof -
      from uniq[OF that] have km: "k = m" "e0 = e" by simp_all
      show ?thesis unfolding km using c raw wrapped by blast
    qed
    have nofail: "\<not> (\<forall>k e. Called k (Some e) \<notin> set tr)"
      using \<open>Called m (Some e) \<in> set tr\<close> by blast
    from fail nofail shape(2) show ?thesis by blast
  qed
qed

theorem Exec_fail_fast_witness:
  "map_option Error (fst (Exec example_chain ())) = Some (''error at '' @ [quote] @ ''X'' @ [quote] @ '': boom'')
   \<and> map_option Unwrap (fst (Exec example_chain ())) = Some (Some (Err ''boom''))
   \<and> calls [Called 0 None, Printed ''X ...'', Called 2 None, Called 3 (Some (Err ''boom''))]
       = [(0, None), (2, None), (3, Some (Err ''boom''))]
   \<and> Exec raw_chain () = (Some (Err ''boom''), ())
   \<and> Exec ok_chain () = (None, ())"
proof -
  note ex = Exec_fail_fast[OF example_run]
  have mem: "Called 3 (Some (Err ''boom''))
      \<in> set [Called 0 None, Printed ''X ...'', Called 2 None, Called 3 (Some (Err ''boom''))]"
    by simp
  have stage: "(1::nat) < 3 \<and> funcs example_chain ! 1 = \<lparr>cFunc_f = None, cFunc_s = ''X''\<rparr> \<and> ''X'' \<noteq> []
      \<and> (\<forall>i. 1 < i \<and> i < 3 \<and> cFunc_f (funcs example_chain ! i) = None
            \<longrightarrow> cFunc_s (funcs example_chain ! i) = [])"
    using example_between by (simp add: example_funcs)
  from ex mem stage
  obtain e' where e': "Some (Errorf_at ''X'' (Err ''boom'')) = Some e'"
    "Error e' = ''error at '' @ [quote] @ ''X'' @ [quote] @ '': '' @ Error (Err ''boom'')"
    "Unwrap e' = Some (Err ''boom'')"
    by blast
  from ex have plain: "Exec example_chain () = (Some (Errorf_at ''X'' (Err ''boom'')), ())" by blast
  from ex mem
  have tr: "calls [Called 0 None, Printed ''X ...'', Called 2 None, Called 3 (Some (Err ''boom''))]
      = map (\<lambda>i. (i, None)) (filter (\<lambda>i. cFunc_f (funcs example_chain ! i) \<noteq> None) [0..<3])
        @ [(3, Some (Err ''boom''))]"
    by blast
  note rw = Exec_fail_fast[OF raw_run]
  have mem2: "Called 1 (Some (Err ''boom'')) \<in> set [Called 0 None, Called 1 (Some (Err ''boom''))]"
    by simp
  have inert: "lastStage raw_chain = []
      \<and> (\<forall>j<1. cFunc_f (funcs raw_chain ! j) = None \<longrightarrow> cFunc_s (funcs raw_chain ! j) = [])"
    by (simp add: chains_fresh raw_funcs)
  from rw have raw: "Exec raw_chain () = (Some (Err ''boom''), ())" by blast
  from rw mem2 inert have "Some (Err ''boom'') = Some (Err ''boom'')" by blast
  note okr = Exec_fail_fast[OF ok_run]
  have "\<forall>k e. Called k (Some e) \<notin> set [Called 0 None, Printed ''X ...'', Called 2 None]"
    by simp
  with okr have okp: "Exec ok_chain () = (None, ())" by blast
  from e' plain raw okp show ?thesis by simp
qed

theorem Exec_fail_fast_counterexample:
  "Exec (Add (Some boom) (Add (Some ok) (Init silent (New ''k'')))) () = (Some (Err ''boom''), ())
   \<and> boom () = (Some (Err ''boom''), ())
   \<and> Unwrap (Err ''boom'') = None"
  by (simp add: Add_def Init_def Logger_def New_def Exec_def ok_def boom_def)


section \<open>Stage steps\<close>

text \<open>
  C7. Let the step at position \<open>j\<close> be a stage step with a non-empty label \<open>X\<close>, and let
  the run reach it (no operation before it failed). Then the trace has the line
  \<open>X ...\<close> after the calls of the operations before \<open>j\<close> and before the calls of the
  operations after \<open>j\<close>; and if a later operation fails with \<open>e\<close> and no stage step
  stands between \<open>j\<close> and it, \<open>Exec\<close> returns an error tagged with \<open>X\<close>: its message is
  \<open>error at 'X': \<close> followed by the message of \<open>e\<close> (so it contains \<open>at 'X'\<close>), and it
  unwraps to \<open>e\<close>.
\<close>

theorem Exec_stage_logged_then_tags:
  assumes "Exec (observed a) ([], w) = (r, (tr, w'))"
      and "j < length (funcs a)" and "funcs a ! j = \<lparr>cFunc_f = None, cFunc_s = X\<rparr>" and "X \<noteq> []"
      and "\<forall>i e. Called i (Some e) \<in> set tr \<longrightarrow> j < i"
  shows "(\<exists>tr1 tr2. tr = tr1 @ Printed (X @ '' ...'') # tr2
            \<and> (\<forall>i res. Called i res \<in> set tr1 \<longrightarrow> i < j)
            \<and> (\<forall>i res. Called i res \<in> set tr2 \<longrightarrow> j < i))
       \<and> (\<forall>k e. Called k (Some e) \<in> set tr \<and> (\<forall>i. j < i \<and> i < k \<longrightarrow> cFunc_f (funcs a ! i) \<noteq> None)
            \<longrightarrow> r = Some (Errorf_at X e)
              \<and> (\<exists>e'. r = Some e'
                    \<and> Error e' = ''error at '' @ [quote] @ X @ [quote] @ '': '' @ Error e
                    \<and> sublist (''at '' @ [quote] @ X @ [quote]) (Error e')
                    \<and> Unwrap e' = Some e))"
proof -
  note shape = observed_run[OF assms(1)]
  have split_events: "events 0 xs = events 0 (take j xs) @ Printed (X @ '' ...'') # events (Suc j) (drop (Suc j) xs)"
    if "j < length xs" "xs ! j = funcs a ! j" for xs :: "'a cFunc list"
  proof -
    have "xs = take j xs @ xs ! j # drop (Suc j) xs"
      using that(1) by (simp add: id_take_nth_drop[symmetric])
    then have "events 0 xs = events 0 (take j xs @ xs ! j # drop (Suc j) xs)" by simp
    also have "\<dots> = events 0 (take j xs) @ events j (xs ! j # drop (Suc j) xs)"
      using that(1) by (simp add: events_append)
    finally show ?thesis using that(2) assms(3,4) by simp
  qed
  have before: "\<forall>i res. Called i res \<in> set (events 0 (take j xs)) \<longrightarrow> i < j" for xs :: "'a cFunc list"
    by (fastforce dest: events_Called)
  have after: "\<forall>i res. Called i res \<in> set (events (Suc j) ys) \<longrightarrow> j < i" for ys :: "'a cFunc list"
    by (fastforce dest: events_Called)
  from shape(1) show ?thesis
  proof (cases rule: run_shape_cases)
    case allok
    from split_events[of "funcs a"] assms(2)
    have "tr = events 0 (take j (funcs a)) @ Printed (X @ '' ...'') # events (Suc j) (drop (Suc j) (funcs a))"
      using allok(2) by simp
    with before[of "funcs a"] after[of "drop (Suc j) (funcs a)"]
    have "\<exists>tr1 tr2. tr = tr1 @ Printed (X @ '' ...'') # tr2
            \<and> (\<forall>i res. Called i res \<in> set tr1 \<longrightarrow> i < j)
            \<and> (\<forall>i res. Called i res \<in> set tr2 \<longrightarrow> j < i)"
      by blast
    moreover have "\<forall>k e. Called k (Some e) \<notin> set tr"
      using allok(2) events_Called by fastforce
    ultimately show ?thesis by blast
  next
    case (failed m e0)
    have "Called m (Some e0) \<in> set tr" using failed(4) by simp
    with assms(5) have jm: "j < m" by blast
    let ?xs = "take m (funcs a)"
    have "j < length ?xs" "?xs ! j = funcs a ! j" using jm failed(1) by simp_all
    from split_events[OF this]
    have tr: "tr = events 0 (take j ?xs) @ Printed (X @ '' ...'') # (events (Suc j) (drop (Suc j) ?xs) @ [Called m (Some e0)])"
      using failed(4) by simp
    have "\<forall>i res. Called i res \<in> set (events (Suc j) (drop (Suc j) ?xs) @ [Called m (Some e0)]) \<longrightarrow> j < i"
      using after[of "drop (Suc j) ?xs"] jm by auto
    with tr before[of ?xs]
    have part1: "\<exists>tr1 tr2. tr = tr1 @ Printed (X @ '' ...'') # tr2
            \<and> (\<forall>i res. Called i res \<in> set tr1 \<longrightarrow> i < j)
            \<and> (\<forall>i res. Called i res \<in> set tr2 \<longrightarrow> j < i)"
      by blast
    have part2: "r = Some (Errorf_at X e)"
      if "Called k (Some e) \<in> set tr" "\<forall>i. j < i \<and> i < k \<longrightarrow> cFunc_f (funcs a ! i) \<noteq> None" for k e
    proof -
      from that(1) failed(4) have km: "k = m" "e = e0"
        using failed_call_unique by blast+
      have "stage_after (take k (funcs a)) (lastStage a) = cFunc_s (funcs a ! j)"
        using jm km failed(1) assms(3,4) that(2) by (intro stage_after_take) simp_all
      then show ?thesis using failed(3) km assms(3,4) by (simp add: tagged_def)
    qed
    have part3: "\<exists>e'. r = Some e'
          \<and> Error e' = ''error at '' @ [quote] @ X @ [quote] @ '': '' @ Error e
          \<and> sublist (''at '' @ [quote] @ X @ [quote]) (Error e')
          \<and> Unwrap e' = Some e"
      if "r = Some (Errorf_at X e)" for e
      using that Errorf_at_message[of X e] sublist_at[of X "Error e"] by simp
    from part1 part2 part3 show ?thesis by blast
  qed
qed


theorem Exec_stage_logged_then_tags_witness:
  "(\<exists>tr1 tr2. [Called 0 None, Printed ''X ...'', Called 2 None, Called 3 (Some (Err ''boom''))]
        = tr1 @ Printed (''X'' @ '' ...'') # tr2
      \<and> (\<forall>i res. Called i res \<in> set tr1 \<longrightarrow> i < 1)
      \<and> (\<forall>i res. Called i res \<in> set tr2 \<longrightarrow> 1 < i))
   \<and> map_option Error (fst (Exec (observed example_chain) ([], ())))
       = Some (''error at '' @ [quote] @ ''X'' @ [quote] @ '': boom'')
   \<and> map_option Unwrap (fst (Exec (observed example_chain) ([], ()))) = Some (Some (Err ''boom''))"
proof -
  have j: "1 < length (funcs example_chain)" "funcs example_chain ! 1 = \<lparr>cFunc_f = None, cFunc_s = ''X''\<rparr>"
    "''X'' \<noteq> []"
    by (simp_all add: example_funcs)
  have reached: "\<forall>i e. Called i (Some e)
      \<in> set [Called 0 None, Printed ''X ...'', Called 2 None, Called 3 (Some (Err ''boom''))] \<longrightarrow> 1 < i"
    by simp
  note inst = Exec_stage_logged_then_tags[OF example_run j reached]
  have mem: "Called 3 (Some (Err ''boom''))
      \<in> set [Called 0 None, Printed ''X ...'', Called 2 None, Called 3 (Some (Err ''boom''))]"
    by simp
  from inst mem example_between
  obtain e' where "Some (Errorf_at ''X'' (Err ''boom'')) = Some e'"
    "Error e' = ''error at '' @ [quote] @ ''X'' @ [quote] @ '': '' @ Error (Err ''boom'')"
    "Unwrap e' = Some (Err ''boom'')"
    by blast
  with inst example_run show ?thesis by simp
qed

text \<open>
  C8. \<open>Stage ""\<close> appends a step with a nil function and an empty label. \<open>Exec\<close> ignores
  such a step wherever it stands: the chain with the step returns the same error and
  leaves the same world as the chain without it, for every logger, so nothing is logged
  and the tag of a later failure is the one in force before the step. In particular an
  operation that fails right after the step is returned as it is when no stage was
  entered, and tagged with the last stage otherwise.
\<close>

theorem Exec_ignores_empty_stage:
  "funcs (Stage [] a) = funcs a @ [\<lparr>cFunc_f = None, cFunc_s = []\<rparr>]
   \<and> Exec (a\<lparr>funcs := pre @ \<lparr>cFunc_f = None, cFunc_s = []\<rparr> # post\<rparr>) w = Exec (a\<lparr>funcs := pre @ post\<rparr>) w
   \<and> Exec (a\<lparr>funcs := \<lparr>cFunc_f = None, cFunc_s = []\<rparr> # \<lparr>cFunc_f = Some g, cFunc_s = st\<rparr> # post\<rparr>) w =
       (case g w of
          (None, w1) \<Rightarrow> Exec (a\<lparr>funcs := post\<rparr>) w1
        | (Some e, w1) \<Rightarrow> (Some (if lastStage a = [] then e else Errorf_at (lastStage a) e), w1))"
  by (simp add: Stage_def Exec_def exec_loop_skip_empty split: prod.splits option.splits)

text \<open>
  C3, as the code has it. Let the chain come from \<open>Init\<close> (no last stage yet) and let the
  operation at position \<open>k\<close> fail with \<open>e\<close>. If a stage step with a non-empty label \<open>X\<close>
  stands before \<open>k\<close> with no stage step between them, \<open>Exec\<close> returns an error whose
  message is \<open>error at 'X': \<close> followed by the message of \<open>e\<close> (so it contains
  \<open>at 'X'\<close>) and which unwraps to \<open>e\<close>. If only operations stand before \<open>k\<close>, \<open>Exec\<close>
  returns \<open>e\<close> itself. The label must be non-empty: after \<open>Stage ""\<close> alone the error comes
  back as it is, not as \<open>error at '': ...\<close>.
\<close>

theorem Exec_stage_tagging:
  assumes "lastStage a = []"
      and "Exec (observed a) ([], w) = (r, (tr, w'))"
      and "Called k (Some e) \<in> set tr"
  shows "(\<forall>j X. j < k \<and> funcs a ! j = \<lparr>cFunc_f = None, cFunc_s = X\<rparr> \<and> X \<noteq> []
            \<and> (\<forall>i. j < i \<and> i < k \<longrightarrow> cFunc_f (funcs a ! i) \<noteq> None) \<longrightarrow>
          (\<exists>e'. r = Some e' \<and> Error e' = ''error at '' @ [quote] @ X @ [quote] @ '': '' @ Error e
             \<and> sublist (''at '' @ [quote] @ X @ [quote]) (Error e') \<and> Unwrap e' = Some e))
       \<and> ((\<forall>j<k. cFunc_f (funcs a ! j) \<noteq> None) \<longrightarrow> r = Some e)"
proof -
  note shape = observed_run[OF assms(2)]
  from shape(1) show ?thesis
  proof (cases rule: run_shape_cases)
    case allok
    with assms(3) events_Called[of k "Some e" 0 "funcs a"] show ?thesis by simp
  next
    case (failed m e0)
    from assms(3) failed(4) have km: "k = m" "e = e0"
      using failed_call_unique by blast+
    have r: "r = Some (tagged (stage_after (take k (funcs a)) []) e)"
      using failed(3) km assms(1) by simp
    have kl: "k \<le> length (funcs a)" using failed(1) km by simp
    have staged: "r = Some (Errorf_at X e)"
      if "j < k" "funcs a ! j = \<lparr>cFunc_f = None, cFunc_s = X\<rparr>" "X \<noteq> []"
        "\<forall>i. j < i \<and> i < k \<longrightarrow> cFunc_f (funcs a ! i) \<noteq> None" for j X
    proof -
      have "stage_after (take k (funcs a)) [] = cFunc_s (funcs a ! j)"
        using that kl by (intro stage_after_take) simp_all
      then show ?thesis using r that by (simp add: tagged_def)
    qed
    have raw: "r = Some e" if "\<forall>j<k. cFunc_f (funcs a ! j) \<noteq> None"
      using r stage_after_take_ops[OF kl that] by (simp add: tagged_def)
    show ?thesis
    proof (intro conjI allI impI)
      fix j X
      assume h: "j < k \<and> funcs a ! j = \<lparr>cFunc_f = None, cFunc_s = X\<rparr> \<and> X \<noteq> []
            \<and> (\<forall>i. j < i \<and> i < k \<longrightarrow> cFunc_f (funcs a ! i) \<noteq> None)"
      then have "r = Some (Errorf_at X e)" using staged by blast
      then show "\<exists>e'. r = Some e' \<and> Error e' = ''error at '' @ [quote] @ X @ [quote] @ '': '' @ Error e
             \<and> sublist (''at '' @ [quote] @ X @ [quote]) (Error e') \<and> Unwrap e' = Some e"
        using sublist_at[of X "Error e"] by (simp add: Errorf_at_def)
    next
      assume "\<forall>j<k. cFunc_f (funcs a ! j) \<noteq> None"
      then show "r = Some e" by (rule raw)
    qed
  qed
qed

theorem Exec_stage_tagging_witness:
  "Error (Errorf_at ''X'' (Err ''boom'')) = ''error at '' @ [quote] @ ''X'' @ [quote] @ '': '' @ ''boom''
   \<and> Unwrap (Errorf_at ''X'' (Err ''boom'')) = Some (Err ''boom'')
   \<and> fst (Exec (observed raw_chain) ([], ())) = Some (Err ''boom'')"
proof -
  have ls: "lastStage example_chain = []" "lastStage raw_chain = []"
    by (simp_all add: example_chain_def raw_chain_def Add_def Stage_def Init_def)
  have mem: "Called 3 (Some (Err ''boom''))
      \<in> set [Called 0 None, Printed ''X ...'', Called 2 None, Called 3 (Some (Err ''boom''))]"
    by simp
  have stage: "(1::nat) < 3 \<and> funcs example_chain ! 1 = \<lparr>cFunc_f = None, cFunc_s = ''X''\<rparr> \<and> ''X'' \<noteq> []
      \<and> (\<forall>i. 1 < i \<and> i < 3 \<longrightarrow> cFunc_f (funcs example_chain ! i) \<noteq> None)"
    using example_between by (simp add: example_funcs)
  from Exec_stage_tagging[OF ls(1) example_run mem] stage
  obtain e' where "Some (Errorf_at ''X'' (Err ''boom'')) = Some e'"
    "Error e' = ''error at '' @ [quote] @ ''X'' @ [quote] @ '': '' @ Error (Err ''boom'')"
    "Unwrap e' = Some (Err ''boom'')"
    by blast
  then have a: "Error (Errorf_at ''X'' (Err ''boom'')) = ''error at '' @ [quote] @ ''X'' @ [quote] @ '': '' @ ''boom''"
    "Unwrap (Errorf_at ''X'' (Err ''boom'')) = Some (Err ''boom'')"
    by simp_all
  have mem2: "Called 1 (Some (Err ''boom'')) \<in> set [Called 0 None, Called 1 (Some (Err ''boom''))]"
    by simp
  have ops: "\<forall>j<1. cFunc_f (funcs raw_chain ! j) \<noteq> None"
    by (simp add: raw_chain_def Add_def Init_def)
  from Exec_stage_tagging[OF ls(2) raw_run mem2] ops
  have "Some (Err ''boom'') = Some (Err ''boom'')" by blast
  with a raw_run show ?thesis by simp
qed

theorem Exec_stage_tagging_counterexample:
  "fst (Exec (Add (Some boom) (Stage [] (Init silent (New ''k'')))) ()) = Some (Err ''boom'')
   \<and> map_option Error (fst (Exec (Add (Some boom) (Stage [] (Init silent (New ''k'')))) ()))
       \<noteq> Some (''error at '' @ [quote] @ [] @ [quote] @ '': '' @ ''boom'')"
  by (simp add: chain_defs)


section \<open>Retry\<close>

text \<open>
  C1. With \<open>count = 1\<close> and an operation that fails on every attempt, the step that
  \<open>Retry\<close> adds invokes the operation twice, both times with attempt number 1, before it
  returns the last error; with \<open>count = 3\<close> it invokes it four times, with the numbers
  1, 1, 2, 3. That is one invocation more than \<open>count\<close>, and the number 1 twice.
\<close>

theorem Retry_count_1_calls_twice:
  "Exec (Retry no_sleep [] 0 1 always_fails (Init silent (New ''k''))) []
     = (Some (Err ''not ready''), [1, 1])
   \<and> Exec (Retry no_sleep [] 0 3 always_fails (Init silent (New ''k''))) []
     = (Some (Err ''not ready''), [1, 1, 2, 3])"
  by (simp add: Exec_def Retry_def Add_def Init_def retry_func_def retry_loop.simps
      always_fails_def no_sleep_def)

section \<open>The socket views\<close>

text \<open>
  C5, as the code has it. For every path \<open>P\<close> that does not begin with \<open>unix://\<close>,
  \<open>Socket(P).File()\<close> is \<open>P\<close> and \<open>Socket(P).Unix()\<close> is \<open>unix://\<close> followed by \<open>P\<close>. For
  every \<open>P\<close>, \<open>Socket("unix://" + P).File()\<close> is \<open>P\<close>, and the two views denote the same
  path: \<open>Unix\<close> is \<open>unix://\<close> followed by \<open>File\<close>. Both are functions of the string alone.
  \<open>File\<close> strips one leading \<open>unix://\<close>, so for a string that begins with it \<open>File\<close> is
  not the string itself.
\<close>

theorem Socket_views:
  "(\<not> HasPrefix P ''unix://'' \<longrightarrow> File (Socket P) = P \<and> Unix (Socket P) = ''unix://'' @ P)
   \<and> File (Socket (''unix://'' @ P)) = P
   \<and> Unix (Socket P) = ''unix://'' @ File (Socket P)"
  by (simp add: TrimPrefix_def HasPrefix_def)

theorem Socket_views_witness:
  "\<not> HasPrefix ''/run/gvproxy.sock'' ''unix://''
   \<and> File (Socket ''/run/gvproxy.sock'') = ''/run/gvproxy.sock''
   \<and> Unix (Socket ''/run/gvproxy.sock'') = ''unix:///run/gvproxy.sock''"
  using Socket_views[of "''/run/gvproxy.sock''"] by (simp add: HasPrefix_def)

theorem Socket_File_counterexample:
  "File (Socket ''unix://a'') = ''a'' \<and> File (Socket ''unix://a'') \<noteq> ''unix://a''
   \<and> Unix (Socket ''unix://a'') \<noteq> ''unix://'' @ ''unix://a''"
  by (simp add: TrimPrefix_def HasPrefix_def)


section \<open>Search domains\<close>

text \<open>
  C6. On darwin and linux, for every content of the resolver configuration: when the
  first line that begins with \<open>search \<close> is reached by the scan (the lines before it fit
  the scanner's buffer), the result is the rest of that line split on white space, and
  for the line \<open>search foo.local bar.local\<close> it is \<open>foo.local\<close>, \<open>bar.local\<close>; when no line
  begins with \<open>search \<close> the result is empty; when a line too long for the scanner comes
  before any such line (malformed input) the result is empty; when the file cannot be
  read the result is empty. The result is always a list: the function has no error
  to return.
\<close>

theorem searchDomains_parsing:
  assumes "GOOS = ''darwin'' \<or> GOOS = ''linux''"
  shows "(\<forall>before ln after. split_lines [] content = before @ ln # after
            \<and> (\<forall>b \<in> set before. length b < MaxScanTokenSize \<and> \<not> HasPrefix (dropCR b) ''search '')
            \<and> length ln < MaxScanTokenSize \<and> HasPrefix (dropCR ln) ''search ''
          \<longrightarrow> searchDomains GOOS (Inr content) = Fields (TrimPrefix (dropCR ln) ''search ''))
      \<and> (\<forall>before after. split_lines [] content = before @ ''search foo.local bar.local'' # after
            \<and> (\<forall>b \<in> set before. length b < MaxScanTokenSize \<and> \<not> HasPrefix (dropCR b) ''search '')
          \<longrightarrow> searchDomains GOOS (Inr content) = [''foo.local'', ''bar.local''])
      \<and> ((\<forall>ln \<in> set (split_lines [] content). \<not> HasPrefix (dropCR ln) ''search '')
          \<longrightarrow> searchDomains GOOS (Inr content) = [])
      \<and> (\<forall>before ln after. split_lines [] content = before @ ln # after
            \<and> (\<forall>b \<in> set before. \<not> HasPrefix (dropCR b) ''search '') \<and> MaxScanTokenSize \<le> length ln
          \<longrightarrow> searchDomains GOOS (Inr content) = [])
      \<and> searchDomains GOOS (Inl err) = []"
proof -
  have sd: "searchDomains GOOS (Inr content) = scan_loop (split_lines [] content)"
    using assms by (auto simp: searchDomains_def)
  have p1: "searchDomains GOOS (Inr content) = Fields (TrimPrefix (dropCR ln) ''search '')"
    if "split_lines [] content = before @ ln # after"
      "\<forall>b \<in> set before. length b < MaxScanTokenSize \<and> \<not> HasPrefix (dropCR b) ''search ''"
      "length ln < MaxScanTokenSize" "HasPrefix (dropCR ln) ''search ''" for before ln after
    using that sd scan_loop_first by simp
  have p2: "searchDomains GOOS (Inr content) = [''foo.local'', ''bar.local'']"
    if "split_lines [] content = before @ ''search foo.local bar.local'' # after"
      "\<forall>b \<in> set before. length b < MaxScanTokenSize \<and> \<not> HasPrefix (dropCR b) ''search ''" for before after
    using p1[OF that search_line_example(1,2)] by (simp only: search_line_example(3) Fields_example)
  have p3: "searchDomains GOOS (Inr content) = []"
    if "\<forall>ln \<in> set (split_lines [] content). \<not> HasPrefix (dropCR ln) ''search ''"
    using that sd scan_loop_none by simp
  have p4: "searchDomains GOOS (Inr content) = []"
    if "split_lines [] content = before @ ln # after"
      "\<forall>b \<in> set before. \<not> HasPrefix (dropCR b) ''search ''" "MaxScanTokenSize \<le> length ln" for before ln after
    using that sd scan_loop_too_long by simp
  have p5: "searchDomains GOOS (Inl err) = []"
    by (simp add: searchDomains_def)
  from p1 p2 p3 p4 p5 show ?thesis by blast
qed

theorem searchDomains_parsing_witness:
  "searchDomains ''linux'' (Inr resolv_conf) = [''foo.local'', ''bar.local'']
   \<and> searchDomains ''linux'' (Inr resolv_conf) = Fields (TrimPrefix (dropCR ''search foo.local bar.local'') ''search '')
   \<and> searchDomains ''linux'' (Inr ''nameserver 1.1.1.1'') = []
   \<and> searchDomains ''linux'' (Inr (replicate 65536 CHR ''a'')) = []"
proof -
  have os: "''linux'' = ''darwin'' \<or> ''linux'' = ''linux''" by simp
  have before: "\<forall>b \<in> set [''nameserver 1.1.1.1'']. length b < MaxScanTokenSize \<and> \<not> HasPrefix (dropCR b) ''search ''"
    using nameserver_line by simp
  note a = searchDomains_parsing[OF os, of resolv_conf]
  from a resolv_conf_lines before
  have 1: "searchDomains ''linux'' (Inr resolv_conf) = [''foo.local'', ''bar.local'']" by blast
  from a resolv_conf_lines before search_line_example(1,2)
  have 2: "searchDomains ''linux'' (Inr resolv_conf) = Fields (TrimPrefix (dropCR ''search foo.local bar.local'') ''search '')"
    by blast
  have "\<forall>ln \<in> set (split_lines [] ''nameserver 1.1.1.1''). \<not> HasPrefix (dropCR ln) ''search ''"
    using nameserver_line by simp
  with searchDomains_parsing[OF os, of "''nameserver 1.1.1.1''"]
  have 3: "searchDomains ''linux'' (Inr ''nameserver 1.1.1.1'') = []" by blast
  have long: "split_lines [] (replicate 65536 CHR ''a'') = [] @ replicate 65536 CHR ''a'' # []"
    by (simp add: split_lines_replicate)
  have "MaxScanTokenSize \<le> length (replicate 65536 CHR ''a'')" "\<forall>b \<in> set []. \<not> HasPrefix (dropCR b) ''search ''"
    by (simp_all add: MaxScanTokenSize_def)
  with searchDomains_parsing[OF os, of "replicate 65536 CHR ''a''"] long
  have 4: "searchDomains ''linux'' (Inr (replicate 65536 CHR ''a'')) = []" by blast
  from 1 2 3 4 show ?thesis by simp
qed


section \<open>Kubernetes: nothing to do when running\<close>

text \<open>
  C9. When the liveness check reports true, \<open>Provision\<close> and \<open>Start\<close> return nil and the
  world they leave is the one the liveness check left (in \<open>Start\<close>, with the line
  \<open>already running\<close> logged): whatever the steps to add, the guest's commands and
  \<open>provisionKubeconfig\<close> are, none of them is run and \<open>Exec\<close> is not reached.
\<close>

theorem kubernetes_running_returns_early:
  assumes "fst (Running c w)"
  shows "Provision withContext prepare c w = (None, snd (Running c w))
     \<and> Start withContext sleep provisionKubeconfig c w
         = (None, Println (Logger withContext (CommandChain c)) [''already running''] (snd (Running c w)))"
proof -
  obtain running w1 where r: "Running c w = (running, w1)" by (cases "Running c w")
  with assms have "running" by simp
  with r show ?thesis by (simp add: Provision_def Start_def)
qed

theorem kubernetes_running_returns_early_witness:
  "fst (Running \<lparr>guest = recording_guest, CommandChain = New ''kubernetes''\<rparr> [])
   \<and> Provision silent (\<lambda>a w. (Add (Some boom) a, w)) \<lparr>guest = recording_guest, CommandChain = New ''kubernetes''\<rparr> []
       = (None, [[''sudo'', ''service'', ''k3s'', ''status'']])
   \<and> Start silent no_sleep boom \<lparr>guest = recording_guest, CommandChain = New ''kubernetes''\<rparr> []
       = (None, [[''sudo'', ''service'', ''k3s'', ''status'']])"
proof -
  have r: "fst (Running \<lparr>guest = recording_guest, CommandChain = New ''kubernetes''\<rparr> [])"
    by (simp add: Running_def recording_guest_def)
  show ?thesis
    using r kubernetes_running_returns_early[OF r, of silent "\<lambda>a w. (Add (Some boom) a, w)" no_sleep boom]
    by (simp add: Running_def recording_guest_def Println_def Logger_def New_def silent_def)
qed


section \<open>Mounts from the command line\<close>

text \<open>
  C10. \<open>mountsFromFlag\<close> returns as many mounts as it is given strings. For a string
  without a colon the location is the whole string and the mount is not writable. For a
  string with a colon the location is the part before the first colon, and the mount is
  writable exactly when the part after the first colon is \<open>w\<close>.
\<close>

theorem mountsFromFlag_spec:
  "length (mountsFromFlag ms) = length ms
   \<and> (\<forall>i<length ms.
        (CHR '':'' \<notin> set (ms ! i) \<longrightarrow>
           Location (mountsFromFlag ms ! i) = ms ! i \<and> \<not> Writable (mountsFromFlag ms ! i))
      \<and> (\<forall>pre suf. ms ! i = pre @ CHR '':'' # suf \<and> CHR '':'' \<notin> set pre \<longrightarrow>
           Location (mountsFromFlag ms ! i) = pre
           \<and> (Writable (mountsFromFlag ms ! i) \<longleftrightarrow> suf = ''w'')))"
  by (simp add: mountsFromFlag_def SplitN2_none SplitN2_first)

theorem mountsFromFlag_spec_witness:
  "mountsFromFlag [''/a:w'', ''/b'', ''/c:rw'']
     = [\<lparr>Location = ''/a'', Writable = True\<rparr>, \<lparr>Location = ''/b'', Writable = False\<rparr>,
        \<lparr>Location = ''/c'', Writable = False\<rparr>]
   \<and> length (mountsFromFlag [''/a:w'', ''/b'', ''/c:rw'']) = 3"
  using mountsFromFlag_spec[of "[''/a:w'', ''/b'', ''/c:rw'']"]
  by (simp add: mountsFromFlag_def SplitN2_def)

end
